theory Spec2Isabelle
  imports Main "HOL-Library.Word" "HOL-Library.Monad_Syntax"
begin

unbundle bit_operations_syntax

section \<open>Counter ChaCha Stream Hash (ccsh.h)\<close>

text \<open>
  A shallow embedding of class \<open>CCSH\<close>. \<open>uint32_t\<close>, \<open>uint64_t\<close> and \<open>uint8_t\<close> are
  \<open>32 word\<close>, \<open>64 word\<close> and \<open>8 word\<close>; a \<open>uint32_t[16]\<close> array is a list of words read
  and written by index; the object's members are a record that every member function
  takes and returns.
\<close>

type_synonym u8 = "8 word"
type_synonym u32 = "32 word"
type_synonym u64 = "64 word"

subsection \<open>rotateLeft and quarterRound\<close>

text \<open>
  \<open>return ((a) << (b)) | ((a) >> (32 - (b)));\<close> on \<open>uint32_t\<close> operands. The subtraction
  \<open>32 - b\<close> is a \<open>uint32_t\<close> subtraction and wraps.
\<close>

definition rotateLeft :: "u32 \<Rightarrow> u32 \<Rightarrow> u32" where
  "rotateLeft a b = push_bit (unat b) a OR drop_bit (unat (32 - b)) a"

text \<open>
  \<open>quarterRound\<close> takes four references and updates them in place; the model takes the
  four values and returns the four new values, statement by statement.
\<close>

definition quarterRound :: "u32 \<times> u32 \<times> u32 \<times> u32 \<Rightarrow> u32 \<times> u32 \<times> u32 \<times> u32" where
  "quarterRound = (\<lambda>(a, b, c, d).
     let a = a + b; d = d XOR a; d = rotateLeft d 16;
         c = c + d; b = b XOR c; b = rotateLeft b 12;
         a = a + b; d = d XOR a; d = rotateLeft d 8;
         c = c + d; b = b XOR c; b = rotateLeft b 7
     in (a, b, c, d))"

text \<open>
  The same two functions with the precondition of the C++ shift operators written out:
  shifting a 32-bit operand by 32 or more has no defined result, which is \<open>None\<close> here.
\<close>

definition shl32 :: "u32 \<Rightarrow> u32 \<Rightarrow> u32 option" where
  "shl32 a n = (if unat n < 32 then Some (push_bit (unat n) a) else None)"

definition shr32 :: "u32 \<Rightarrow> u32 \<Rightarrow> u32 option" where
  "shr32 a n = (if unat n < 32 then Some (drop_bit (unat n) a) else None)"

definition rotateLeft_chk :: "u32 \<Rightarrow> u32 \<Rightarrow> u32 option" where
  "rotateLeft_chk a b = do {
     l \<leftarrow> shl32 a b;
     r \<leftarrow> shr32 a (32 - b);
     Some (l OR r)
   }"

definition quarterRound_chk ::
  "u32 \<times> u32 \<times> u32 \<times> u32 \<Rightarrow> (u32 \<times> u32 \<times> u32 \<times> u32) option" where
  "quarterRound_chk = (\<lambda>(a, b, c, d). do {
     let a = a + b; let d = d XOR a; d \<leftarrow> rotateLeft_chk d 16;
     let c = c + d; let b = b XOR c; b \<leftarrow> rotateLeft_chk b 12;
     let a = a + b; let d = d XOR a; d \<leftarrow> rotateLeft_chk d 8;
     let c = c + d; let b = b XOR c; b \<leftarrow> rotateLeft_chk b 7;
     Some (a, b, c, d)
   })"

subsection \<open>chacha_block\<close>

text \<open>
  \<open>quarterRound(x[i], x[j], x[k], x[l])\<close>: the four array cells are passed by reference,
  so the call reads them and writes the results back.
\<close>

definition quarterRound_at :: "nat \<Rightarrow> nat \<Rightarrow> nat \<Rightarrow> nat \<Rightarrow> u32 list \<Rightarrow> u32 list" where
  "quarterRound_at i j k l x =
     (case quarterRound (x ! i, x ! j, x ! k, x ! l) of
        (a, b, c, d) \<Rightarrow> x[i := a, j := b, k := c, l := d])"

text \<open>The body of the loop \<open>for (i = 0; i < 10; i++)\<close>: eight calls in program order.\<close>

definition chacha_loop_body :: "u32 list \<Rightarrow> u32 list" where
  "chacha_loop_body x =
     (let x = quarterRound_at 0 4 8 12 x;
          x = quarterRound_at 1 5 9 13 x;
          x = quarterRound_at 2 6 10 14 x;
          x = quarterRound_at 3 7 11 15 x;
          x = quarterRound_at 0 5 10 15 x;
          x = quarterRound_at 1 6 11 12 x;
          x = quarterRound_at 2 7 8 13 x;
          x = quarterRound_at 3 4 9 14 x
      in x)"

function chacha_loop :: "nat \<Rightarrow> u32 list \<Rightarrow> u32 list" where
  "chacha_loop i x = (if i < 10 then chacha_loop (i + 1) (chacha_loop_body x) else x)"
  by pat_completeness auto
termination
  by (relation "measure (\<lambda>(i, x). 10 - i)") auto

declare chacha_loop.simps [simp del]

text \<open>
  \<open>chacha_block(out, in)\<close>: copy the 16 input words to \<open>x\<close>, run the loop, and write
  \<open>out[i] = x[i] + in[i]\<close> for \<open>i = 0 .. 15\<close>. The model returns \<open>out\<close>.
\<close>

definition chacha_block :: "u32 list \<Rightarrow> u32 list" where
  "chacha_block inp =
     (let x = map (\<lambda>i. inp ! i) [0..<16];
          x = chacha_loop 0 x
      in map (\<lambda>i. x ! i + inp ! i) [0..<16])"

subsection \<open>The permutation as the specification describes it\<close>

text \<open>
  A second definition of the permutation, written from the description rather than from
  the code: left rotation is the library's \<open>word_rotl\<close>, addition is addition of the
  unsigned values modulo \<open>2 ^ 32\<close>, a quarter-round acts on a group of four indices, a
  double-round is the four column groups followed by the four diagonal groups, and the
  result is ten double-rounds followed by the word-wise feed-forward addition.
\<close>

definition add_mod32 :: "u32 \<Rightarrow> u32 \<Rightarrow> u32" where
  "add_mod32 a b = word_of_nat ((unat a + unat b) mod 2 ^ 32)"

definition arx_step :: "nat \<Rightarrow> u32 \<times> u32 \<times> u32 \<Rightarrow> u32 \<times> u32" where
  "arx_step n = (\<lambda>(p, q, r). (add_mod32 p q, word_rotl n (r XOR add_mod32 p q)))"

definition quarter_round_ref :: "u32 \<times> u32 \<times> u32 \<times> u32 \<Rightarrow> u32 \<times> u32 \<times> u32 \<times> u32" where
  "quarter_round_ref = (\<lambda>(a, b, c, d).
     case arx_step 16 (a, b, d) of (a1, d1) \<Rightarrow>
     case arx_step 12 (c, d1, b) of (c1, b1) \<Rightarrow>
     case arx_step 8 (a1, b1, d1) of (a2, d2) \<Rightarrow>
     case arx_step 7 (c1, d2, b1) of (c2, b2) \<Rightarrow> (a2, b2, c2, d2))"

definition quarter_round_on :: "nat \<times> nat \<times> nat \<times> nat \<Rightarrow> u32 list \<Rightarrow> u32 list" where
  "quarter_round_on = (\<lambda>(i, j, k, l) x.
     case quarter_round_ref (x ! i, x ! j, x ! k, x ! l) of
       (a, b, c, d) \<Rightarrow> x[i := a, j := b, k := c, l := d])"

definition column_groups :: "(nat \<times> nat \<times> nat \<times> nat) list" where
  "column_groups = [(0, 4, 8, 12), (1, 5, 9, 13), (2, 6, 10, 14), (3, 7, 11, 15)]"

definition diagonal_groups :: "(nat \<times> nat \<times> nat \<times> nat) list" where
  "diagonal_groups = [(0, 5, 10, 15), (1, 6, 11, 12), (2, 7, 8, 13), (3, 4, 9, 14)]"

definition double_round_ref :: "u32 list \<Rightarrow> u32 list" where
  "double_round_ref x = fold quarter_round_on diagonal_groups (fold quarter_round_on column_groups x)"

definition chacha_ref :: "u32 list \<Rightarrow> u32 list" where
  "chacha_ref inp = map2 add_mod32 ((double_round_ref ^^ 10) inp) inp"

subsection \<open>The object and its constructor\<close>

text \<open>
  The members of \<open>CCSH\<close>. \<open>state\<close> is a \<open>std::array<uint32_t, 16>\<close>: a list that
  every member function keeps at 16 words.
\<close>

record CCSH =
  state :: "u32 list"
  counter :: u64
  nonce :: u64
  initialized :: bool

definition CCSH_new :: CCSH where
  "CCSH_new = \<lparr>state = replicate 16 0, counter = 0, nonce = 0, initialized = False\<rparr>"

subsection \<open>memset and memcpy on an array of words\<close>

text \<open>
  \<open>update\<close> writes the payload words through \<open>std::memset\<close> and \<open>std::memcpy\<close>, that is
  byte by byte. The model reads the array as its bytes in memory order, replaces \<open>n\<close>
  bytes from byte offset \<open>off\<close> and reads the words back. The byte order within a word
  is that of a little-endian host: the byte at the lowest address is the least
  significant one.
\<close>

definition bytes_of_word :: "u32 \<Rightarrow> u8 list" where
  "bytes_of_word w = [ucast w, ucast (drop_bit 8 w), ucast (drop_bit 16 w), ucast (drop_bit 24 w)]"

definition word_of_bytes :: "u8 \<Rightarrow> u8 \<Rightarrow> u8 \<Rightarrow> u8 \<Rightarrow> u32" where
  "word_of_bytes b0 b1 b2 b3 =
     ucast b0 OR push_bit 8 (ucast b1) OR push_bit 16 (ucast b2) OR push_bit 24 (ucast b3)"

definition bytes_of_words :: "u32 list \<Rightarrow> u8 list" where
  "bytes_of_words ws = concat (map bytes_of_word ws)"

fun words_of_bytes :: "u8 list \<Rightarrow> u32 list" where
  "words_of_bytes (b0 # b1 # b2 # b3 # bs) = word_of_bytes b0 b1 b2 b3 # words_of_bytes bs"
| "words_of_bytes _ = []"

definition memset_words :: "u32 list \<Rightarrow> nat \<Rightarrow> u8 \<Rightarrow> nat \<Rightarrow> u32 list" where
  "memset_words ws off v n =
     (let mem = bytes_of_words ws
      in words_of_bytes (take off mem @ replicate n v @ drop (off + n) mem))"

definition memcpy_words :: "u32 list \<Rightarrow> nat \<Rightarrow> u8 list \<Rightarrow> nat \<Rightarrow> u32 list" where
  "memcpy_words ws off src n =
     (let mem = bytes_of_words ws
      in words_of_bytes (take off mem @ take n src @ drop (off + n) mem))"

subsection \<open>update and start\<close>

text \<open>
  The local array \<open>currState\<close> of \<open>update\<close>: four initialisers, the other twelve words
  value-initialised to zero.
\<close>

definition currState_init :: "u32 list" where
  "currState_init = [0x65787061, 0x6E642033, 0x32206279, 0x7465206B] @ replicate 12 0"

text \<open>
  One iteration of the loop of \<open>update\<close>. \<open>rest\<close> is the input from \<open>data\<close> to \<open>dataEnd\<close>,
  so \<open>dataEnd - data\<close> is its length. \<open>std::min<uint8_t>(dataEnd - data, 32)\<close> converts
  both arguments to \<open>uint8_t\<close> before it compares them: the length is taken modulo 256.
  \<open>currStatePtr + 4\<close> is byte offset 16 of the array and \<open>8 * sizeof(uint32_t)\<close> is 32.
  The iteration returns the array \<open>currState\<close>, which lives across iterations and is the
  array it passed to \<open>chacha_block\<close>, and the object.
\<close>

definition update_body :: "u32 list \<Rightarrow> u8 list \<Rightarrow> CCSH \<Rightarrow> u32 list \<times> CCSH" where
  "update_body currState rest s =
     (let currState = memset_words currState 16 0 32;
          bytesToCopy = min (word_of_nat (length rest) :: u8) 32;
          currState = memcpy_words currState 16 rest (unat bytesToCopy);
          s = s\<lparr>counter := counter s + ucast bytesToCopy\<rparr>;
          currState = currState[12 := ucast (counter s)];
          currState = currState[14 := ucast (nonce s)];
          s = s\<lparr>nonce := nonce s + 1\<rparr>;
          outputBlock = chacha_block currState;
          s = (if \<not> initialized s then s\<lparr>state := outputBlock, initialized := True\<rparr>
               else s\<lparr>state :=
                      fold (\<lambda>j st. st[j := st ! j XOR outputBlock ! j]) [0..<16] (state s)\<rparr>)
      in (currState, s))"

text \<open>
  \<open>for (; data < dataEnd; data += 32)\<close>: the loop runs while input is left and then
  moves 32 bytes on, past the end when fewer than 32 were left.
\<close>

function update_loop :: "u32 list \<Rightarrow> u8 list \<Rightarrow> CCSH \<Rightarrow> CCSH" where
  "update_loop currState rest s =
     (if rest \<noteq> [] then
        (case update_body currState rest s of
           (currState', s') \<Rightarrow> update_loop currState' (drop 32 rest) s')
      else s)"
  by pat_completeness auto
termination
  by (relation "measure (\<lambda>(currState, rest, s). length rest)") auto

declare update_loop.simps [simp del]

text \<open>
  \<open>update(data, length)\<close> and \<open>start(data, length)\<close>, with the input as the list of its
  \<open>length\<close> bytes. The overloads that take a \<open>std::string\<close> pass its bytes and its
  length to these two.
\<close>

definition update :: "CCSH \<Rightarrow> u8 list \<Rightarrow> CCSH" where
  "update s data = update_loop currState_init data s"

definition start :: "CCSH \<Rightarrow> u8 list \<Rightarrow> CCSH" where
  "start s data =
     update (s\<lparr>state := replicate 16 0, counter := 0, nonce := 0, initialized := False\<rparr>) data"

text \<open>
  The arrays that the loop of \<open>update\<close> passes to \<open>chacha_block\<close>, in order: the same
  recursion as \<open>update_loop\<close>, collecting the array of each iteration.
\<close>

function loop_inputs :: "u32 list \<Rightarrow> u8 list \<Rightarrow> CCSH \<Rightarrow> u32 list list" where
  "loop_inputs currState rest s =
     (if rest \<noteq> [] then
        (case update_body currState rest s of
           (currState', s') \<Rightarrow> currState' # loop_inputs currState' (drop 32 rest) s')
      else [])"
  by pat_completeness auto
termination
  by (relation "measure (\<lambda>(currState, rest, s). length rest)") auto

declare loop_inputs.simps [simp del]

definition update_inputs :: "CCSH \<Rightarrow> u8 list \<Rightarrow> u32 list list" where
  "update_inputs s data = loop_inputs currState_init data s"

text \<open>The states an object can be in: constructed, then any calls of \<open>start\<close> and \<open>update\<close>.\<close>

inductive reachable :: "CCSH \<Rightarrow> bool" where
  constructed: "reachable CCSH_new"
| started: "reachable s \<Longrightarrow> reachable (start s data)"
| updated: "reachable s \<Longrightarrow> reachable (update s data)"

code_pred reachable .

subsection \<open>hexdump\<close>

text \<open>
  \<open>ss << std::hex << std::setw(8) << std::setfill('0') << state[i]\<close>: the stream writes
  the value in base 16 with the digits \<open>0-9a-f\<close>, no prefix and no leading zeros, and
  pads it on the left with the fill character to the field width.
\<close>

definition hex_digit :: "nat \<Rightarrow> char" where
  "hex_digit d = ''0123456789abcdef'' ! d"

function hex_digits :: "nat \<Rightarrow> string" where
  "hex_digits n = (if n < 16 then [hex_digit n] else hex_digits (n div 16) @ [hex_digit (n mod 16)])"
  by pat_completeness auto
termination
  by (relation "measure id") auto

declare hex_digits.simps [simp del]

definition put_hex :: "nat \<Rightarrow> char \<Rightarrow> u32 \<Rightarrow> string" where
  "put_hex width fillch v =
     (let ds = hex_digits (unat v) in replicate (width - length ds) fillch @ ds)"

text \<open>
  The loop of \<open>hexdump\<close>, with the stream contents \<open>ss\<close> and the object passed along; the
  function returns the string and the object as the call leaves it.
\<close>

function hexdump_loop :: "nat \<Rightarrow> string \<Rightarrow> CCSH \<Rightarrow> string \<times> CCSH" where
  "hexdump_loop i ss s =
     (if i < 16 then hexdump_loop (i + 1) (ss @ put_hex 8 (CHR ''0'') (state s ! i)) s
      else (ss, s))"
  by pat_completeness auto
termination
  by (relation "measure (\<lambda>(i, ss, s). 16 - i)") auto

declare hexdump_loop.simps [simp del]

definition hexdump_call :: "CCSH \<Rightarrow> string \<times> CCSH" where
  "hexdump_call s = hexdump_loop 0 [] s"

definition hexdump :: "CCSH \<Rightarrow> string" where
  "hexdump s = fst (hexdump_call s)"

text \<open>
  The digest text as the specification describes it: eight digits per word, the most
  significant nibble first.
\<close>

definition hex8_ref :: "u32 \<Rightarrow> string" where
  "hex8_ref w = map (\<lambda>k. hex_digit (unat (drop_bit (4 * (7 - k)) w AND 15))) [0..<8]"

definition lower_hex :: "char \<Rightarrow> bool" where
  "lower_hex c = (c \<in> set ''0123456789abcdef'')"

subsection \<open>Four characters packed into a word\<close>

text \<open>
  The two ways to read four ASCII characters as a 32-bit word: the first character in
  the most significant byte (the order in which a hexadecimal literal shows them), and
  the first character in the least significant byte (little-endian).
\<close>

definition be32_of_chars :: "string \<Rightarrow> u32" where
  "be32_of_chars cs = foldl (\<lambda>w c. push_bit 8 w OR word_of_nat (of_char c)) 0 cs"

definition le32_of_chars :: "string \<Rightarrow> u32" where
  "le32_of_chars cs = foldr (\<lambda>c w. push_bit 8 w OR word_of_nat (of_char c)) cs 0"

subsection \<open>Quarter-round steps in continuation form\<close>

text \<open>
  Two halves of a quarter-round, each passing its four results to a continuation. They
  restate \<open>quarterRound\<close> without local bindings, so that the simplifier computes a
  concrete permutation from the inside out, one word operation at a time.
\<close>

definition arx_ad ::
  "u32 \<Rightarrow> (u32 \<Rightarrow> u32 \<Rightarrow> u32 \<Rightarrow> u32 \<Rightarrow> 'r) \<Rightarrow> u32 \<Rightarrow> u32 \<Rightarrow> u32 \<Rightarrow> u32 \<Rightarrow> 'r" where
  "arx_ad n k a b c d = k (a + b) b c (rotateLeft (d XOR (a + b)) n)"

definition arx_cb ::
  "u32 \<Rightarrow> (u32 \<Rightarrow> u32 \<Rightarrow> u32 \<Rightarrow> u32 \<Rightarrow> 'r) \<Rightarrow> u32 \<Rightarrow> u32 \<Rightarrow> u32 \<Rightarrow> u32 \<Rightarrow> 'r" where
  "arx_cb n k a b c d = k a (rotateLeft (b XOR (c + d)) n) (c + d) d"

section \<open>Verification\<close>

subsection \<open>Rotation and the quarter-round\<close>

lemma bit32_beyond: "32 \<le> m \<Longrightarrow> \<not> bit (a :: u32) m"
  by (auto dest: bit_imp_le_length)

lemma rot_gen:
  assumes "0 < k" "k < 32"
  shows "push_bit k a OR drop_bit (32 - k) a = word_rotl k (a :: u32)"
proof (rule bit_word_eqI)
  fix n assume "n < LENGTH(32)"
  then have n: "n < 32" by simp
  show "bit (push_bit k a OR drop_bit (32 - k) a) n = bit (word_rotl k a) n"
  proof (cases "k \<le> n")
    case True
    then have "(n + (32 - k)) mod 32 = n - k" using n assms
      by (simp add: mod_if)
    moreover have "\<not> bit a (32 - k + n)" using True by (intro bit32_beyond) simp
    ultimately show ?thesis using n assms True by (simp add: bit_simps)
  next
    case False
    then have idx: "(n + (LENGTH(32) - k mod LENGTH(32))) mod LENGTH(32) = 32 - k + n"
      using n assms by simp
    have "bit (word_rotl k a) n = bit a (32 - k + n)"
      using \<open>n < LENGTH(32)\<close> by (simp only: bit_word_rotl_iff idx simp_thms)
    moreover have "bit (push_bit k a OR drop_bit (32 - k) a) n = bit a (32 - k + n)"
      using False n by (simp only: bit_or_iff bit_push_bit_iff bit_drop_bit_eq) simp
    ultimately show ?thesis by simp
  qed
qed

lemma rot16: "rotateLeft a 16 = word_rotl 16 a"
  and rot12: "rotateLeft a 12 = word_rotl 12 a"
  and rot8: "rotateLeft a 8 = word_rotl 8 a"
  and rot7: "rotateLeft a 7 = word_rotl 7 a"
  using rot_gen [of 16 a] rot_gen [of 12 a] rot_gen [of 8 a] rot_gen [of 7 a]
  by (simp_all add: rotateLeft_def)

lemma add_mod32_eq: "add_mod32 a b = a + b"
  by (simp add: add_mod32_def word_unat_eq_iff unat_of_nat unat_word_ariths)

lemma rotateLeft_chk_None: "rotateLeft_chk x n = None \<longleftrightarrow> n = 0 \<or> 32 \<le> n"
proof (cases "n = 0")
  case True
  then show ?thesis by (simp add: rotateLeft_chk_def shl32_def shr32_def)
next
  case False
  then have pos: "0 < unat n" by (simp add: unat_gt_0)
  show ?thesis
  proof (cases "32 \<le> n")
    case True
    then have "32 \<le> unat n" by (simp add: word_le_nat_alt)
    with True show ?thesis by (simp add: rotateLeft_chk_def shl32_def)
  next
    case False
    then have lt: "unat n < 32" by (simp add: word_le_nat_alt not_le)
    then have "unat (32 - n) = 32 - unat n"
      by (simp add: unat_sub word_le_nat_alt)
    with pos lt False \<open>n \<noteq> 0\<close> show ?thesis
      by (simp add: rotateLeft_chk_def shl32_def shr32_def)
  qed
qed

lemma rotateLeft_chk_consts:
  "rotateLeft_chk x 16 = Some (rotateLeft x 16)"
  "rotateLeft_chk x 12 = Some (rotateLeft x 12)"
  "rotateLeft_chk x 8 = Some (rotateLeft x 8)"
  "rotateLeft_chk x 7 = Some (rotateLeft x 7)"
  by (simp_all add: rotateLeft_chk_def shl32_def shr32_def rotateLeft_def)

text \<open>
  Claim C10: every call of \<open>rotateLeft\<close> made by \<open>quarterRound\<close> has a rotation amount
  among 16, 12, 8 and 7, so neither shift of \<open>(a << b) | (a >> (32 - b))\<close> is by 32 or
  more. \<open>rotateLeft_chk\<close> is undefined exactly for the amounts 0 and 32 and above;
  \<open>quarterRound_chk\<close>, which fails as soon as one of its rotations is undefined, always
  returns the result of \<open>quarterRound\<close>; and that result is the one obtained with the
  left rotations by 16, 12, 8 and 7.
\<close>

theorem quarterRound_rotations_defined:
  "(rotateLeft_chk x n = None \<longleftrightarrow> n = 0 \<or> 32 \<le> n) \<and>
   quarterRound_chk (a, b, c, d) = Some (quarterRound (a, b, c, d)) \<and>
   quarterRound (a, b, c, d) =
     (let a1 = a + b; d1 = word_rotl 16 (d XOR a1);
          c1 = c + d1; b1 = word_rotl 12 (b XOR c1);
          a2 = a1 + b1; d2 = word_rotl 8 (d1 XOR a2);
          c2 = c1 + d2; b2 = word_rotl 7 (b1 XOR c2)
      in (a2, b2, c2, d2))"
proof (intro conjI)
  show "rotateLeft_chk x n = None \<longleftrightarrow> n = 0 \<or> 32 \<le> n"
    by (rule rotateLeft_chk_None)
  show "quarterRound_chk (a, b, c, d) = Some (quarterRound (a, b, c, d))"
    by (simp add: quarterRound_chk_def quarterRound_def rotateLeft_chk_consts Let_def)
  show "quarterRound (a, b, c, d) =
     (let a1 = a + b; d1 = word_rotl 16 (d XOR a1);
          c1 = c + d1; b1 = word_rotl 12 (b XOR c1);
          a2 = a1 + b1; d2 = word_rotl 8 (d1 XOR a2);
          c2 = c1 + d2; b2 = word_rotl 7 (b1 XOR c2)
      in (a2, b2, c2, d2))"
    by (simp add: quarterRound_def rot16 rot12 rot8 rot7 Let_def)
qed

lemma quarterRound_ref: "quarterRound q = quarter_round_ref q"
  by (cases q) (simp add: quarterRound_def quarter_round_ref_def arx_step_def add_mod32_eq
      rot16 rot12 rot8 rot7 Let_def)

lemma quarterRound_at_ref: "quarterRound_at i j k l x = quarter_round_on (i, j, k, l) x"
  by (simp add: quarterRound_at_def quarter_round_on_def quarterRound_ref)

lemma chacha_loop_body_ref: "chacha_loop_body x = double_round_ref x"
  by (simp add: chacha_loop_body_def double_round_ref_def column_groups_def diagonal_groups_def
      quarterRound_at_ref Let_def)

lemma length_quarterRound_at [simp]: "length (quarterRound_at i j k l x) = length x"
  by (simp add: quarterRound_at_def split: prod.split)

lemma length_chacha_loop_body [simp]: "length (chacha_loop_body x) = length x"
  by (simp add: chacha_loop_body_def Let_def)

lemma length_funpow_body [simp]: "length ((chacha_loop_body ^^ n) x) = length x"
  by (induction n) simp_all

lemma chacha_loop_funpow: "chacha_loop i x = (chacha_loop_body ^^ (10 - i)) x"
proof (induction i x rule: chacha_loop.induct)
  case (1 i x)
  show ?case
  proof (cases "i < 10")
    case True
    then have "10 - i = Suc (10 - (i + 1))" by simp
    with True 1 show ?thesis
      by (simp add: chacha_loop.simps [of i x] funpow_swap1)
  next
    case False
    then show ?thesis by (simp add: chacha_loop.simps [of i x])
  qed
qed

lemma map_nth_16: "length xs = 16 \<Longrightarrow> map (\<lambda>i. xs ! i) [0..<16] = xs"
  using map_nth [of xs] by simp

lemma map2_nth_16:
  assumes "length xs = 16" "length ys = 16"
  shows "map (\<lambda>i. f (xs ! i) (ys ! i)) [0..<16] = map2 f xs ys"
  using assms by (intro nth_equalityI) simp_all

text \<open>
  Claim C3: on every block of 16 words \<open>chacha_block\<close> is the reference permutation: ten
  double-rounds of four column and four diagonal quarter-rounds on the copied input,
  each quarter-round the four add-xor-rotate steps with rotations 16, 12, 8 and 7 and
  addition modulo \<open>2 ^ 32\<close>, followed by the word-wise addition of the input.
\<close>

theorem chacha_block_is_reference:
  assumes "length inp = 16"
  shows "chacha_block inp = chacha_ref inp"
proof -
  have body: "chacha_loop_body = double_round_ref"
    by (rule ext) (rule chacha_loop_body_ref)
  have x: "chacha_loop 0 (map (\<lambda>i. inp ! i) [0..<16]) = (double_round_ref ^^ 10) inp"
    using assms by (simp add: chacha_loop_funpow map_nth_16 body)
  have len: "length ((double_round_ref ^^ 10) inp) = 16"
    using assms length_funpow_body [of 10 inp] by (simp add: body)
  show ?thesis
    unfolding chacha_block_def chacha_ref_def Let_def x
    using map2_nth_16 [OF len assms, of "(+)"] by (simp add: add_mod32_eq [abs_def])
qed

theorem chacha_block_is_reference_witness:
  "length (replicate 16 (0 :: u32)) = 16 \<and>
   chacha_block (replicate 16 0) = chacha_ref (replicate 16 0)"
  using chacha_block_is_reference [of "replicate 16 0"] by simp

subsection \<open>Computing the permutation on concrete blocks\<close>

lemma quarterRound_at_cps:
  "quarterRound_at i j k l x =
     arx_ad 16 (arx_cb 12 (arx_ad 8 (arx_cb 7 (\<lambda>a b c d. x[i := a, j := b, k := c, l := d]))))
       (x ! i) (x ! j) (x ! k) (x ! l)"
  by (simp add: quarterRound_at_def quarterRound_def arx_ad_def arx_cb_def Let_def)

lemma and_mask32: "(x :: u32) AND 4294967295 = x"
proof -
  have "(4294967295 :: u32) = - 1" by simp
  then show ?thesis by (simp only: and.right_neutral)
qed

lemma rotateLeft_eval:
  "rotateLeft t 16 = (push_bit 16 t OR drop_bit 16 t) AND 4294967295"
  "rotateLeft t 12 = (push_bit 12 t OR drop_bit 20 t) AND 4294967295"
  "rotateLeft t 8 = (push_bit 8 t OR drop_bit 24 t) AND 4294967295"
  "rotateLeft t 7 = (push_bit 7 t OR drop_bit 25 t) AND 4294967295"
  by (simp_all only: and_mask32) (simp_all add: rotateLeft_def)

lemma arx_ad_eval:
  "arx_ad n k a b c d = k ((a + b) AND 4294967295) b c (rotateLeft (d XOR ((a + b) AND 4294967295)) n)"
  by (simp only: and_mask32 arx_ad_def)

lemma arx_cb_eval:
  "arx_cb n k a b c d = k a (rotateLeft (b XOR ((c + d) AND 4294967295)) n) ((c + d) AND 4294967295) d"
  by (simp only: and_mask32 arx_cb_def)

lemma chacha_loop_body_eval:
  "chacha_loop_body x =
     quarterRound_at 3 4 9 14 (quarterRound_at 2 7 8 13 (quarterRound_at 1 6 11 12
    (quarterRound_at 0 5 10 15 (quarterRound_at 3 7 11 15 (quarterRound_at 2 6 10 14
    (quarterRound_at 1 5 9 13 (quarterRound_at 0 4 8 12 x)))))))"
  by (simp add: chacha_loop_body_def Let_def)

lemma chacha_loop_eval:
  "chacha_loop 0 x =
     chacha_loop_body (chacha_loop_body (chacha_loop_body (chacha_loop_body (chacha_loop_body
    (chacha_loop_body (chacha_loop_body (chacha_loop_body (chacha_loop_body (chacha_loop_body
       x)))))))))"
  by (simp add: chacha_loop_funpow eval_nat_numeral funpow_swap1)

lemma chacha_block_eval:
  assumes "length inp = 16"
  shows "chacha_block inp = map2 (\<lambda>p q. (p + q) AND 4294967295) (chacha_loop 0 inp) inp"
proof -
  have "length (chacha_loop 0 inp) = 16" using assms by (simp add: chacha_loop_funpow)
  from map2_nth_16 [OF this assms, of "(+)"] show ?thesis
    using assms by (simp only: and_mask32) (simp add: chacha_block_def Let_def map_nth_16)
qed

lemma list_update_Cons_numeral:
  "(x # xs)[numeral n := y] = x # xs[pred_numeral n := y]"
  by (simp add: numeral_eq_Suc)

lemmas chacha_eval = chacha_block_eval chacha_loop_eval chacha_loop_body_eval quarterRound_at_cps
  arx_ad_eval arx_cb_eval rotateLeft_eval list_update_Cons_numeral

subsection \<open>The payload region and one iteration of the loop\<close>

lemma length_bytes_of_words [simp]: "length (bytes_of_words ws) = 4 * length ws"
  by (induction ws) (simp_all add: bytes_of_words_def bytes_of_word_def)

lemma bytes_of_words_append: "bytes_of_words (a @ b) = bytes_of_words a @ bytes_of_words b"
  by (simp add: bytes_of_words_def)

lemma word_of_bytes_of_word:
  "word_of_bytes (ucast w) (ucast (drop_bit 8 w)) (ucast (drop_bit 16 w)) (ucast (drop_bit 24 w)) = w"
proof (rule bit_word_eqI)
  fix n assume "n < LENGTH(32)"
  then have n: "n < 32" by simp
  let ?lhs = "word_of_bytes (ucast w) (ucast (drop_bit 8 w)) (ucast (drop_bit 16 w))
    (ucast (drop_bit 24 w))"
  consider "n < 8" | "8 \<le> n" "n < 16" | "16 \<le> n" "n < 24" | "24 \<le> n" by linarith
  then show "bit ?lhs n = bit w n"
  proof cases
    case 1
    then show ?thesis by (simp add: word_of_bytes_def bit_simps)
  next
    case 2
    then show ?thesis using n by (auto simp: word_of_bytes_def bit_simps)
  next
    case 3
    then show ?thesis using n by (auto simp: word_of_bytes_def bit_simps)
  next
    case 4
    then show ?thesis using n by (auto simp: word_of_bytes_def bit_simps)
  qed
qed

lemma words_of_bytes_word [simp]:
  "words_of_bytes (bytes_of_word w @ bs) = w # words_of_bytes bs"
  by (simp add: bytes_of_word_def word_of_bytes_of_word)

lemma words_of_bytes_words [simp]:
  "words_of_bytes (bytes_of_words ws @ bs) = ws @ words_of_bytes bs"
  by (induction ws) (simp_all add: bytes_of_words_def)

lemma words_of_bytes_replicate:
  "words_of_bytes (replicate (4 * n) b) = replicate n (word_of_bytes b b b b)"
proof (induction n)
  case 0
  show ?case by simp
next
  case (Suc n)
  have "replicate (4 * Suc n) b = b # b # b # b # replicate (4 * n) b"
    by (simp add: numeral_eq_Suc)
  with Suc show ?case by simp
qed

lemma words_of_bytes_zeros: "words_of_bytes (replicate (4 * n) 0) = replicate n 0"
  by (simp add: words_of_bytes_replicate word_of_bytes_def)

lemma length_words_of_bytes [simp]: "length (words_of_bytes bs) = length bs div 4"
  by (induction bs rule: words_of_bytes.induct) simp_all

lemma words_of_bytes_append:
  "length a = 4 * n \<Longrightarrow> words_of_bytes (a @ b) = words_of_bytes a @ words_of_bytes b"
proof (induction n arbitrary: a)
  case 0
  then show ?case by simp
next
  case (Suc n)
  then obtain b0 b1 b2 b3 a' where a: "a = b0 # b1 # b2 # b3 # a'" and "length a' = 4 * n"
    by (cases a; simp; cases "tl a"; simp; cases "tl (tl a)"; simp; cases "tl (tl (tl a))"; simp)
  with Suc.IH [of a'] show ?case by simp
qed

text \<open>The payload region after \<open>memset\<close> and \<open>memcpy\<close>.\<close>

lemma split_16:
  assumes "length cs = 16"
  shows "cs = take 4 cs @ take 8 (drop 4 cs) @ drop 12 cs"
proof -
  have "drop 8 (drop 4 cs) = drop 12 cs" by simp
  with append_take_drop_id [of 8 "drop 4 cs"]
  have "take 8 (drop 4 cs) @ drop 12 cs = drop 4 cs" by (simp only:)
  with append_take_drop_id [of 4 cs] show ?thesis by (simp only:)
qed

lemma memset_payload:
  assumes "length cs = 16"
  shows "memset_words cs 16 0 32 = take 4 cs @ replicate 8 0 @ drop 12 cs"
proof -
  define A P T where "A = take 4 cs" and "P = take 8 (drop 4 cs)" and "T = drop 12 cs"
  have cs: "cs = A @ P @ T" unfolding A_def P_def T_def using assms by (rule split_16)
  have len: "length A = 4" "length P = 8" "length T = 4"
    using assms by (simp_all add: A_def P_def T_def)
  have mem: "bytes_of_words cs = bytes_of_words A @ bytes_of_words P @ bytes_of_words T"
    by (subst cs) (simp add: bytes_of_words_append)
  have "take 16 (bytes_of_words cs) = bytes_of_words A"
    by (simp add: mem len)
  moreover have "drop (16 + 32) (bytes_of_words cs) = bytes_of_words T"
    by (simp add: mem len)
  moreover have "words_of_bytes (replicate 32 0 @ bytes_of_words T) = replicate 8 0 @ T"
    using words_of_bytes_append [of "replicate 32 0" 8 "bytes_of_words T"]
      words_of_bytes_zeros [of 8] words_of_bytes_words [of T "[]"] by simp
  ultimately show ?thesis
    using words_of_bytes_words [of A]
    by (simp add: memset_words_def Let_def A_def T_def)
qed

lemma memcpy_payload:
  assumes "length A = 4" "length T = 4" "n \<le> 32" "n \<le> length src"
  shows "memcpy_words (A @ replicate 8 0 @ T) 16 src n =
           A @ words_of_bytes (take n src @ replicate (32 - n) 0) @ T"
proof -
  let ?Z = "replicate 8 (0 :: u32)"
  have z: "bytes_of_words ?Z = replicate 32 0"
    by (simp add: bytes_of_words_def bytes_of_word_def numeral_eq_Suc)
  have mem: "bytes_of_words (A @ ?Z @ T) = bytes_of_words A @ replicate 32 0 @ bytes_of_words T"
    by (simp add: bytes_of_words_append z)
  have t: "take 16 (bytes_of_words (A @ ?Z @ T)) = bytes_of_words A"
    by (simp add: mem assms)
  have d: "drop (16 + n) (bytes_of_words (A @ ?Z @ T)) = replicate (32 - n) 0 @ bytes_of_words T"
    using assms by (simp add: mem)
  have l: "length (take n src @ replicate (32 - n) (0 :: u8)) = 4 * 8"
    using assms by simp
  have "words_of_bytes ((take n src @ replicate (32 - n) 0) @ bytes_of_words T)
          = words_of_bytes (take n src @ replicate (32 - n) 0) @ T"
    using words_of_bytes_append [OF l, of "bytes_of_words T"] words_of_bytes_words [of T "[]"]
    by simp
  then show ?thesis
    by (simp add: memcpy_words_def Let_def t d)
qed

lemma bytesToCopy_le:
  "unat (min (word_of_nat m :: u8) 32) = min (m mod 256) 32"
  by (simp add: min_def word_le_nat_alt unat_of_nat)


lemma fold_index_update:
  "n \<le> length st \<Longrightarrow>
     fold (\<lambda>j st. st[j := f j (st ! j)]) [0..<n] st = map (\<lambda>j. f j (st ! j)) [0..<n] @ drop n st"
proof (induction n)
  case 0
  show ?case by simp
next
  case (Suc n)
  then have n: "n < length st" by simp
  let ?L = "map (\<lambda>j. f j (st ! j)) [0..<n]"
  have IH: "fold (\<lambda>j st. st[j := f j (st ! j)]) [0..<n] st = ?L @ drop n st"
    using Suc by simp
  have d: "drop n st = st ! n # drop (Suc n) st"
    using n by (simp add: Cons_nth_drop_Suc)
  have "(?L @ drop n st)[n := f n ((?L @ drop n st) ! n)] = ?L @ f n (st ! n) # drop (Suc n) st"
    by (simp add: d list_update_append nth_append)
  then show ?case by (simp add: IH)
qed

lemma xor_loop_16:
  assumes "length st = 16" "length out = 16"
  shows "fold (\<lambda>j st. st[j := st ! j XOR out ! j]) [0..<16] st = map2 (XOR) st out"
proof -
  have "fold (\<lambda>j st. st[j := st ! j XOR out ! j]) [0..<16] st
          = map (\<lambda>j. st ! j XOR out ! j) [0..<16]"
    using fold_index_update [of 16 st "\<lambda>j v. v XOR out ! j"] assms by simp
  with map2_nth_16 [OF assms, of "(XOR)"] show ?thesis by simp
qed

lemma length_chacha_block [simp]: "length (chacha_block inp) = 16"
  by (simp add: chacha_block_def Let_def)

lemma drop_12_of_16:
  assumes "length cs = 16"
  shows "drop 12 cs = [cs ! 12, cs ! 13, cs ! 14, cs ! 15]"
proof -
  have "drop 16 cs = []" using assms by simp
  moreover have "drop 15 cs = cs ! 15 # drop 16 cs"
    using Cons_nth_drop_Suc [of 15 cs] assms by simp
  moreover have "drop 14 cs = cs ! 14 # drop 15 cs"
    using Cons_nth_drop_Suc [of 14 cs] assms by simp
  moreover have "drop 13 cs = cs ! 13 # drop 14 cs"
    using Cons_nth_drop_Suc [of 13 cs] assms by simp
  moreover have "drop 12 cs = cs ! 12 # drop 13 cs"
    using Cons_nth_drop_Suc [of 12 cs] assms by simp
  ultimately show ?thesis by (simp only:)
qed

lemma ucast_bytesToCopy:
  "(ucast (min (word_of_nat m :: u8) 32) :: u64) = word_of_nat (min (m mod 256) 32)"
proof -
  have "(word_of_nat (unat w) :: u64) = ucast w" for w :: u8
    by (rule of_nat_unat)
  from this [of "min (word_of_nat m) 32", symmetric] show ?thesis
    by (simp only: bytesToCopy_le)
qed

text \<open>One iteration of the loop of \<open>update\<close>, component by component.\<close>

lemma update_body_input:
  assumes "length cs = 16"
  shows "fst (update_body cs rest s) =
           take 4 cs @
           words_of_bytes (take (min (length rest mod 256) 32) rest
                           @ replicate (32 - min (length rest mod 256) 32) 0) @
           [ucast (counter s + word_of_nat (min (length rest mod 256) 32)),
            cs ! 13, ucast (nonce s), cs ! 15]"
proof -
  let ?n = "min (length rest mod 256) 32"
  let ?W = "words_of_bytes (take ?n rest @ replicate (32 - ?n) 0)"
  have n: "unat (min (word_of_nat (length rest) :: u8) 32) = ?n" by (rule bytesToCopy_le)
  have le: "?n \<le> length rest"
    by (metis min.cobounded1 mod_less_eq_dividend order_trans)
  have uc: "(ucast (min (word_of_nat (length rest) :: u8) 32) :: u64) = word_of_nat ?n"
    by (rule ucast_bytesToCopy)
  have lw: "length ?W = 8" using le by simp
  have cpy: "memcpy_words (memset_words cs 16 0 32) 16 rest ?n = take 4 cs @ ?W @ drop 12 cs"
    using assms le by (simp add: memset_payload memcpy_payload)
  have upd: "(take 4 cs @ ?W @ [cs ! 12, cs ! 13, cs ! 14, cs ! 15])[12 := x, 14 := y]
          = take 4 cs @ ?W @ [x, cs ! 13, y, cs ! 15]" for x y
    using assms lw by (simp add: list_update_append)
  show ?thesis
    using upd by (simp add: update_body_def Let_def n uc cpy drop_12_of_16 [OF assms])
qed

lemma length_update_body_input [simp]:
  "length cs = 16 \<Longrightarrow> length (fst (update_body cs rest s)) = 16"
proof -
  assume a: "length cs = 16"
  have "min (length rest mod 256) 32 \<le> length rest"
    by (metis min.cobounded1 mod_less_eq_dividend order_trans)
  then show ?thesis using a by (simp add: update_body_input)
qed

lemma update_body_counter:
  "counter (snd (update_body cs rest s)) = counter s + word_of_nat (min (length rest mod 256) 32)"
  by (simp add: update_body_def Let_def ucast_bytesToCopy)

lemma update_body_nonce: "nonce (snd (update_body cs rest s)) = nonce s + 1"
  by (simp add: update_body_def Let_def)

lemma update_body_initialized: "initialized (snd (update_body cs rest s))"
  by (simp add: update_body_def Let_def)

lemma update_body_state:
  "state (snd (update_body cs rest s)) =
     (if \<not> initialized s then chacha_block (fst (update_body cs rest s))
      else fold (\<lambda>j st. st[j := st ! j XOR chacha_block (fst (update_body cs rest s)) ! j])
             [0..<16] (state s))"
  by (simp add: update_body_def Let_def)

lemma update_loop_Nil [simp]: "update_loop cs [] s = s"
  by (simp add: update_loop.simps)

lemma update_loop_step:
  "rest \<noteq> [] \<Longrightarrow>
     update_loop cs rest s =
       update_loop (fst (update_body cs rest s)) (drop 32 rest) (snd (update_body cs rest s))"
  by (subst update_loop.simps) (simp add: case_prod_beta)

lemma loop_inputs_Nil [simp]: "loop_inputs cs [] s = []"
  by (simp add: loop_inputs.simps)

lemma loop_inputs_step:
  "rest \<noteq> [] \<Longrightarrow>
     loop_inputs cs rest s =
       fst (update_body cs rest s) #
       loop_inputs (fst (update_body cs rest s)) (drop 32 rest) (snd (update_body cs rest s))"
  by (subst loop_inputs.simps) (simp add: case_prod_beta)

subsection \<open>Invariants of the loop of update\<close>

lemma update_loop_initialized:
  "initialized s \<Longrightarrow> initialized (update_loop cs rest s)"
proof (induction cs rest s rule: update_loop.induct)
  case (1 cs rest s)
  show ?case
  proof (cases "rest = []")
    case True
    with 1 show ?thesis by simp
  next
    case False
    have "initialized (update_loop (fst (update_body cs rest s)) (drop 32 rest)
            (snd (update_body cs rest s)))"
      using False by (intro "1.IH" [OF False prod.collapse])
        (rule update_body_initialized)
    with False show ?thesis by (simp add: update_loop_step)
  qed
qed

lemma update_loop_length_state:
  "length (state s) = 16 \<Longrightarrow> length cs = 16 \<Longrightarrow> length (state (update_loop cs rest s)) = 16"
proof (induction cs rest s rule: update_loop.induct)
  case (1 cs rest s)
  show ?case
  proof (cases "rest = []")
    case True
    with 1 show ?thesis by simp
  next
    case False
    have l: "length (state (snd (update_body cs rest s))) = 16"
      using "1.prems" by (simp add: update_body_state xor_loop_16)
    have "length (state (update_loop (fst (update_body cs rest s)) (drop 32 rest)
            (snd (update_body cs rest s)))) = 16"
      using False "1.prems" l
      by (intro "1.IH" [OF False prod.collapse]) simp_all
    with False show ?thesis by (simp add: update_loop_step)
  qed
qed

lemma length_currState_init [simp]: "length currState_init = 16"
  by (simp add: currState_init_def)

lemma reachable_length_state: "reachable s \<Longrightarrow> length (state s) = 16"
proof (induction rule: reachable.induct)
  case constructed
  show ?case by (simp add: CCSH_new_def)
next
  case (started s data)
  show ?case by (simp add: start_def update_def update_loop_length_state)
next
  case (updated s data)
  then show ?case by (simp add: update_def update_loop_length_state)
qed

subsection \<open>Splitting an input across two calls of update\<close>

text \<open>
  The permutation of the two blocks in which the runs below differ: payload zero, nonce
  word zero, counter word 0 and 32.
\<close>

lemma block_zero_0:
  "chacha_block [1702391905, 1852055603, 840983161, 1952784491, 0, 0, 0, 0, 0, 0, 0, 0, 0, 0, 0, 0] =
     [665670316, 3415440645, 2218979701, 1326157380, 958496104, 213328915, 496352732, 1626541588, 1835791193, 4040097808, 2007378879, 729260536, 3547883500, 2493311670, 1584472906, 2357858106]"
  by (simp add: chacha_eval)

lemma block_zero_32:
  "chacha_block [1702391905, 1852055603, 840983161, 1952784491, 0, 0, 0, 0, 0, 0, 0, 0, 32, 0, 0, 0] =
     [3482799211, 3417281721, 1717808303, 2868831020, 1545227228, 1258135379, 3852536957, 3797085256, 2211417465, 1212148162, 2060825548, 2218334996, 2385620292, 121152348, 4038537946, 1973590255]"
  by (simp add: chacha_eval)

text \<open>
  One iteration on an input of \<open>m\<close> zero bytes: whatever number of bytes it copies, the
  payload is zero. The second form is the first on an explicit array and object, for
  running the loop on a concrete length.
\<close>

lemma update_loop_zero_step:
  assumes "0 < m" "length cs = 16" "initialized s \<longrightarrow> length (state s) = 16"
  shows "update_loop cs (replicate m 0) s =
     update_loop
       (take 4 cs @ replicate 8 0 @
          [ucast (counter s + word_of_nat (min (m mod 256) 32)), cs ! 13, ucast (nonce s), cs ! 15])
       (replicate (m - 32) 0)
       \<lparr>state =
          (if initialized s then
             map2 (XOR) (state s) (chacha_block (take 4 cs @ replicate 8 0 @
               [ucast (counter s + word_of_nat (min (m mod 256) 32)), cs ! 13, ucast (nonce s),
                cs ! 15]))
           else chacha_block (take 4 cs @ replicate 8 0 @
               [ucast (counter s + word_of_nat (min (m mod 256) 32)), cs ! 13, ucast (nonce s),
                cs ! 15])),
        counter = counter s + word_of_nat (min (m mod 256) 32),
        nonce = nonce s + 1,
        initialized = True\<rparr>"
proof -
  let ?n = "min (m mod 256) 32"
  let ?rest = "replicate m (0 :: u8)"
  have le: "?n \<le> m" by (metis min.cobounded1 mod_less_eq_dividend order_trans)
  have "take ?n ?rest @ replicate (32 - ?n) 0 = replicate (4 * 8) (0 :: u8)"
    using le by (simp add: replicate_add [symmetric] min_absorb2)
  then have w: "words_of_bytes (take ?n ?rest @ replicate (32 - ?n) 0) = replicate 8 0"
    by (simp only: words_of_bytes_zeros)
  have inp: "fst (update_body cs ?rest s) = take 4 cs @ replicate 8 0 @
      [ucast (counter s + word_of_nat ?n), cs ! 13, ucast (nonce s), cs ! 15]"
    using update_body_input [OF assms(2), of ?rest s] w by simp
  have st: "snd (update_body cs ?rest s) =
      \<lparr>state = (if initialized s then map2 (XOR) (state s) (chacha_block (fst (update_body cs ?rest s)))
                 else chacha_block (fst (update_body cs ?rest s))),
       counter = counter s + word_of_nat ?n, nonce = nonce s + 1, initialized = True\<rparr>"
    using assms(3) update_body_counter [of cs ?rest s]
    by (intro CCSH.equality)
      (simp_all add: update_body_state update_body_nonce update_body_initialized xor_loop_16)
  have "?rest \<noteq> []" using assms(1) by simp
  from update_loop_step [OF this, of cs s] show ?thesis
    by (simp only: st inp drop_replicate)
qed

text \<open>Two states that absorbed the same later blocks differ when they differed before.\<close>

lemma map2_xor_cancel:
  assumes "length a = length c" "length b = length c"
  shows "map2 (XOR) a c = map2 (XOR) b c \<longleftrightarrow> a = (b :: u32 list)"
proof
  assume eq: "map2 (XOR) a c = map2 (XOR) b c"
  show "a = b"
  proof (rule nth_equalityI)
    show "length a = length b" using assms by simp
    fix i assume i: "i < length a"
    then have "map2 (XOR) a c ! i = map2 (XOR) b c ! i" using eq by simp
    then have "a ! i XOR c ! i = b ! i XOR c ! i" using i assms by simp
    then have "(a ! i XOR c ! i) XOR c ! i = (b ! i XOR c ! i) XOR c ! i"
      by (simp only:)
    then show "a ! i = b ! i"
      by (simp only: xor.assoc xor_self_eq xor.right_neutral)
  qed
qed simp

lemma zeros_288: "replicate 256 0 @ replicate 32 0 = replicate 288 (0 :: u8)"
  by (simp add: replicate_add [symmetric])

lemma replicate_8: "replicate 8 x = [x, x, x, x, x, x, x, x]"
  by (simp add: numeral_eq_Suc)

lemma currState_init_list:
  "currState_init =
     [0x65787061, 0x6E642033, 0x32206279, 0x7465206B, 0, 0, 0, 0, 0, 0, 0, 0, 0, 0, 0, 0]"
  by (simp add: currState_init_def numeral_eq_Suc)

lemma zero_step:
  assumes "0 < m" "b \<longrightarrow> length st = 16"
  shows "update_loop [c0, c1, c2, c3, p0, p1, p2, p3, p4, p5, p6, p7, w12, w13, w14, w15]
       (replicate m 0) \<lparr>state = st, counter = c, nonce = n, initialized = b\<rparr> =
     update_loop
       [c0, c1, c2, c3, 0, 0, 0, 0, 0, 0, 0, 0,
        ucast (c + word_of_nat (min (m mod 256) 32)), w13, ucast n, w15]
       (replicate (m - 32) 0)
       \<lparr>state =
          (if b then
             map2 (XOR) st (chacha_block [c0, c1, c2, c3, 0, 0, 0, 0, 0, 0, 0, 0,
               ucast (c + word_of_nat (min (m mod 256) 32)), w13, ucast n, w15])
           else chacha_block [c0, c1, c2, c3, 0, 0, 0, 0, 0, 0, 0, 0,
               ucast (c + word_of_nat (min (m mod 256) 32)), w13, ucast n, w15]),
        counter = c + word_of_nat (min (m mod 256) 32),
        nonce = n + 1,
        initialized = True\<rparr>"
  using update_loop_zero_step [of m "[c0, c1, c2, c3, p0, p1, p2, p3, p4, p5, p6, p7, w12, w13, w14, w15]"
      "\<lparr>state = st, counter = c, nonce = n, initialized = b\<rparr>"] assms
  by (simp add: replicate_8)

text \<open>
  Claim C4: for byte sequences B1 and B2 with the length of B1 a multiple of 32,
  \<open>update(B1)\<close> followed by \<open>update(B2)\<close> leaves the same HashState as
  \<open>update(B1 || B2)\<close>. The code does not: with B1 = 256 zero bytes and B2 = 32 zero
  bytes on a new object the two states differ. In the single call the first iteration
  sees 288 bytes left, \<open>std::min<uint8_t>\<close> turns that into 32 and the counter word of
  the first block is 32; in the split call the first iteration sees 256 bytes left,
  which \<open>uint8_t\<close> turns into 0, and the counter word of the first block is 0. All later
  blocks agree.
\<close>

theorem split_update_diverges:
  "state (update (update CCSH_new (replicate 256 0)) (replicate 32 0)) \<noteq>
   state (update CCSH_new (replicate 256 0 @ replicate 32 0))"
  by (simp add: zeros_288 update_def CCSH_new_def currState_init_list zero_step map2_xor_cancel
      block_zero_0 block_zero_32)

subsection \<open>start\<close>

lemma reset_is_new:
  "s\<lparr>state := replicate 16 0, counter := 0, nonce := 0, initialized := False\<rparr> = CCSH_new"
  by (simp add: CCSH_new_def)

text \<open>
  Claim C7: whatever calls an object has seen, \<open>start(B)\<close> sets the counter and the
  nonce to 0, the flag to false and the state to zeros before it absorbs B, so the
  object, and with it the digest string, is the one a new object has after \<open>start(B)\<close>.
\<close>

theorem start_resets:
  "start s data = update CCSH_new data \<and>
   state CCSH_new = replicate 16 0 \<and> counter CCSH_new = 0 \<and> nonce CCSH_new = 0 \<and>
   initialized CCSH_new = False \<and>
   start s data = start CCSH_new data \<and>
   hexdump (start s data) = hexdump (start CCSH_new data)"
  by (simp add: start_def reset_is_new) (simp add: CCSH_new_def)

subsection \<open>hexdump\<close>

lemma hexdump_loop_eq:
  "hexdump_loop i ss s = (ss @ concat (map (\<lambda>j. put_hex 8 (CHR ''0'') (state s ! j)) [i..<16]), s)"
proof (induction i ss s rule: hexdump_loop.induct)
  case (1 i ss s)
  show ?case
  proof (cases "i < 16")
    case True
    then have "[i..<16] = i # [i + 1..<16]" by (simp add: upt_conv_Cons)
    with True 1 show ?thesis by (simp add: hexdump_loop.simps [of i ss s])
  next
    case False
    then show ?thesis by (simp add: hexdump_loop.simps [of i ss s])
  qed
qed

text \<open>
  Claim C9: \<open>hexdump\<close> only reads: the object it leaves is the object it was called on,
  with state, counter, nonce and flag unchanged, so a second call after \<open>start(B)\<close>
  returns the same string as the first.
\<close>

theorem hexdump_pure_read:
  "snd (hexdump_call s) = s \<and>
   fst (hexdump_call (snd (hexdump_call (start s0 data)))) = fst (hexdump_call (start s0 data))"
  by (simp add: hexdump_call_def hexdump_loop_eq)

subsection \<open>Folding the permutation output into the state\<close>

text \<open>
  Claim C5: an iteration of \<open>update\<close> that finds the flag false assigns the permutation
  output to the state; one that finds it true replaces the state by its word-wise XOR
  with the output; either way the flag is true afterwards, and a call of \<open>update\<close> on
  an object whose flag is true leaves it true.
\<close>

theorem update_body_folds_output:
  "initialized (snd (update_body cs rest s)) \<and>
   (\<not> initialized s \<longrightarrow>
      state (snd (update_body cs rest s)) = chacha_block (fst (update_body cs rest s))) \<and>
   (initialized s \<and> length (state s) = 16 \<longrightarrow>
      state (snd (update_body cs rest s)) =
        map2 (XOR) (state s) (chacha_block (fst (update_body cs rest s)))) \<and>
   (initialized s \<longrightarrow> initialized (update s data))"
  by (simp add: update_body_initialized update_body_state xor_loop_16 update_def
      update_loop_initialized)


text \<open>
  Both cases occur: the first block of a new object, and a further block on the object
  that \<open>start\<close> leaves after one byte.
\<close>

theorem update_body_folds_output_witness:
  "\<not> initialized CCSH_new \<and>
   state (snd (update_body currState_init [0] CCSH_new)) =
     chacha_block (fst (update_body currState_init [0] CCSH_new)) \<and>
   initialized (start CCSH_new [0]) \<and> length (state (start CCSH_new [0])) = 16 \<and>
   state (snd (update_body currState_init [0] (start CCSH_new [0]))) =
     map2 (XOR) (state (start CCSH_new [0]))
       (chacha_block (fst (update_body currState_init [0] (start CCSH_new [0])))) \<and>
   initialized (update (start CCSH_new [0]) [1])"
proof -
  have n: "\<not> initialized CCSH_new" by (simp add: CCSH_new_def)
  have i: "initialized (start CCSH_new [0])"
    by (simp add: start_def update_def update_loop_step update_body_initialized)
  have l: "length (state (start CCSH_new [0])) = 16"
    by (intro reachable_length_state reachable.intros)
  show ?thesis
    using n i l update_body_folds_output [of currState_init "[0]" CCSH_new]
      update_body_folds_output [of currState_init "[0]" "start CCSH_new [0]" "[1]"]
    by simp
qed

subsection \<open>The digest text\<close>

lemma hex_digits_padded:
  "n < 16 ^ Suc k \<Longrightarrow>
     replicate (Suc k - length (hex_digits n)) (hex_digit 0) @ hex_digits n =
       map (\<lambda>j. hex_digit (n div 16 ^ (k - j) mod 16)) [0..<Suc k]"
proof (induction k arbitrary: n)
  case 0
  then show ?case by (simp add: hex_digits.simps [of n])
next
  case (Suc k)
  show ?case
  proof (cases "n < 16")
    case True
    have "map (\<lambda>j. hex_digit (n div 16 ^ (Suc k - j) mod 16)) [0..<Suc k] =
          map (\<lambda>j. hex_digit 0) [0..<Suc k]"
    proof (rule map_cong [OF refl])
      fix j assume "j \<in> set [0..<Suc k]"
      then have "Suc k - j = Suc (k - j)" by auto
      moreover have "(16 :: nat) \<le> 16 * 16 ^ (k - j)" by simp
      with True have "n < 16 * 16 ^ (k - j)" by (rule less_le_trans)
      ultimately have "n < 16 ^ (Suc k - j)" by (simp only: power_Suc)
      then show "hex_digit (n div 16 ^ (Suc k - j) mod 16) = hex_digit 0" by simp
    qed
    also have "\<dots> = replicate (Suc k) (hex_digit 0)"
      by (simp add: map_replicate_const)
    finally show ?thesis
      using True by (simp add: hex_digits.simps [of n])
  next
    case False
    have lt: "n div 16 < 16 ^ Suc k"
      using Suc.prems by (simp add: less_mult_imp_div_less mult.commute)
    have "map (\<lambda>j. hex_digit (n div 16 ^ (Suc k - j) mod 16)) [0..<Suc k] =
          map (\<lambda>j. hex_digit (n div 16 div 16 ^ (k - j) mod 16)) [0..<Suc k]"
    proof (rule map_cong [OF refl])
      fix j assume "j \<in> set [0..<Suc k]"
      then have "Suc k - j = Suc (k - j)" by auto
      then show "hex_digit (n div 16 ^ (Suc k - j) mod 16) =
                 hex_digit (n div 16 div 16 ^ (k - j) mod 16)"
        by (simp add: div_mult2_eq)
    qed
    with Suc.IH [OF lt] False show ?thesis
      by (simp add: hex_digits.simps [of n])
  qed
qed


lemma hex_digit_0: "hex_digit 0 = CHR ''0''"
  by (simp add: hex_digit_def)

lemma unat_nibble: "unat (drop_bit (4 * m) w AND 15) = unat w div 16 ^ m mod 16" for w :: u32
proof -
  have "(15 :: u32) = mask 4" by (simp add: mask_eq_exp_minus_1)
  then have "unat (drop_bit (4 * m) w AND 15) = unat (take_bit 4 (drop_bit (4 * m) w))"
    by (simp add: take_bit_eq_mask)
  also have "\<dots> = take_bit 4 (drop_bit (4 * m) (unat w))"
    by (simp only: unsigned_take_bit_eq unat_drop_bit_eq)
  also have "\<dots> = unat w div 2 ^ (4 * m) mod 2 ^ 4"
    by (simp only: take_bit_eq_mod drop_bit_eq_div)
  also have "\<dots> = unat w div 16 ^ m mod 16"
    by (simp add: power_mult)
  finally show ?thesis .
qed

lemma put_hex_ref: "put_hex 8 (CHR ''0'') w = hex8_ref w"
proof -
  have "unat w < 2 ^ 32" using unsigned_less [of w] by simp
  then have "unat w < 16 ^ Suc 7" by simp
  from hex_digits_padded [OF this] show ?thesis
    by (simp add: put_hex_def hex8_ref_def hex_digit_0 unat_nibble Let_def)
qed


lemma lower_hex_digit: "d < 16 \<Longrightarrow> lower_hex (hex_digit d)"
proof -
  assume "d < 16"
  then have "d < length ''0123456789abcdef''" by simp
  then show ?thesis unfolding lower_hex_def hex_digit_def by (rule nth_mem)
qed

lemma list_all_hex8_ref: "list_all lower_hex (hex8_ref w)"
  by (simp add: hex8_ref_def list_all_iff unat_nibble lower_hex_digit)

lemma length_hex8_ref [simp]: "length (hex8_ref w) = 8"
  by (simp add: hex8_ref_def)

lemma length_concat_hex8: "length (concat (map hex8_ref ws)) = 8 * length ws"
  by (induction ws) simp_all

lemma list_all_concat_hex8: "list_all lower_hex (concat (map hex8_ref ws))"
  by (induction ws) (simp_all add: list_all_hex8_ref)

lemma hexdump_ref:
  assumes "length (state s) = 16"
  shows "hexdump s = concat (map hex8_ref (state s))"
proof -
  have "map (\<lambda>j. hex8_ref (state s ! j)) [0..<16] = map hex8_ref (map (\<lambda>j. state s ! j) [0..<16])"
    by simp
  also have "\<dots> = map hex8_ref (state s)"
    by (simp only: map_nth_16 [OF assms])
  finally show ?thesis
    by (simp add: hexdump_def hexdump_call_def hexdump_loop_eq put_hex_ref)
qed

lemma hexdump_new: "hexdump CCSH_new = replicate 128 (CHR ''0'')"
proof -
  have "hex8_ref 0 = replicate 8 (CHR ''0'')"
    by (simp add: hex8_ref_def hex_digit_0 map_replicate_const)
  then have "concat (map hex8_ref (replicate 16 0)) = concat (replicate 16 (replicate 8 (CHR ''0'')))"
    by simp
  also have "\<dots> = replicate 128 (CHR ''0'')"
    by (simp add: numeral_eq_Suc)
  finally show ?thesis
    by (simp add: hexdump_ref CCSH_new_def)
qed

text \<open>
  Claim C8: in every reachable state the state has 16 words and \<open>hexdump\<close> returns the
  128 characters obtained by writing each word, in the order 0 to 15, as eight
  hexadecimal digits from the most significant nibble down; every character is one of
  \<open>0-9a-f\<close>; and on a new object the string is 128 times the character 0.
\<close>

theorem hexdump_format:
  assumes "reachable s"
  shows "length (state s) = 16 \<and>
         hexdump s = concat (map hex8_ref (state s)) \<and>
         length (hexdump s) = 128 \<and>
         list_all lower_hex (hexdump s) \<and>
         hexdump CCSH_new = replicate 128 (CHR ''0'')"
proof -
  have l: "length (state s) = 16" using assms by (rule reachable_length_state)
  then have h: "hexdump s = concat (map hex8_ref (state s))" by (rule hexdump_ref)
  show ?thesis
    using l h by (simp add: length_concat_hex8 list_all_concat_hex8 hexdump_new)
qed

text \<open>The new object and the object after \<open>start("abc")\<close> are reachable.\<close>

theorem hexdump_format_witness:
  "reachable CCSH_new \<and> hexdump CCSH_new = replicate 128 (CHR ''0'') \<and>
   reachable (start CCSH_new [97, 98, 99]) \<and>
   length (hexdump (start CCSH_new [97, 98, 99])) = 128 \<and>
   list_all lower_hex (hexdump (start CCSH_new [97, 98, 99]))"
proof -
  have a: "reachable CCSH_new" by (rule reachable.constructed)
  then have b: "reachable (start CCSH_new [97, 98, 99])" by (rule reachable.started)
  show ?thesis
    using a b hexdump_format [OF a] hexdump_format [OF b] by blast
qed

subsection \<open>The constant words of the permutation input\<close>

lemma loop_inputs_fixed_words:
  "length cs = 16 \<Longrightarrow> p \<in> set (loop_inputs cs rest s) \<Longrightarrow>
     take 4 p = take 4 cs \<and> p ! 13 = cs ! 13 \<and> p ! 15 = cs ! 15 \<and> length p = 16"
proof (induction cs rest s rule: loop_inputs.induct)
  case (1 cs rest s)
  show ?case
  proof (cases "rest = []")
    case True
    with "1.prems" show ?thesis by simp
  next
    case False
    let ?p0 = "fst (update_body cs rest s)"
    have le: "min (length rest mod 256) 32 \<le> length rest"
      by (metis min.cobounded1 mod_less_eq_dividend order_trans)
    have p0: "take 4 ?p0 = take 4 cs \<and> ?p0 ! 13 = cs ! 13 \<and> ?p0 ! 15 = cs ! 15 \<and> length ?p0 = 16"
      using "1.prems"(1) le by (simp add: update_body_input nth_append)
    from "1.prems"(2) False
    consider "p = ?p0" | "p \<in> set (loop_inputs ?p0 (drop 32 rest) (snd (update_body cs rest s)))"
      by (auto simp: loop_inputs_step)
    then show ?thesis
    proof cases
      case 1
      with p0 show ?thesis by simp
    next
      case 2
      from "1.IH" [OF False prod.collapse _ 2] p0 show ?thesis by simp
    qed
  qed
qed

lemma sigma_words:
  "be32_of_chars ''expa'' = 0x65787061" "be32_of_chars ''nd 3'' = 0x6E642033"
  "be32_of_chars ''2 by'' = 0x32206279" "be32_of_chars ''te k'' = 0x7465206B"
  "le32_of_chars ''expa'' = 0x61707865" "le32_of_chars ''nd 3'' = 0x3320646E"
  "le32_of_chars ''2-by'' = 0x79622D32" "le32_of_chars ''te k'' = 0x6B206574"
  by (simp_all add: be32_of_chars_def le32_of_chars_def)

text \<open>
  Claim C2, as the code has it: in every array that \<open>update\<close> passes to
  \<open>chacha_block\<close>, words 0 to 3 are 0x65787061, 0x6E642033, 0x32206279 and 0x7465206B:
  the characters of "expand 32 byte k" (a space before "byte"), four to a word, the
  first character of each group in the most significant byte.
\<close>

theorem update_inputs_constant:
  assumes "i < length (update_inputs s data)"
  shows "take 4 (update_inputs s data ! i) = [0x65787061, 0x6E642033, 0x32206279, 0x7465206B] \<and>
         take 4 (update_inputs s data ! i) =
           map be32_of_chars [''expa'', ''nd 3'', ''2 by'', ''te k'']"
proof -
  have "update_inputs s data ! i \<in> set (loop_inputs currState_init data s)"
    using assms by (simp add: update_inputs_def)
  from loop_inputs_fixed_words [OF length_currState_init this]
  have "take 4 (update_inputs s data ! i) = take 4 currState_init" by simp
  then show ?thesis by (simp add: currState_init_list sigma_words)
qed

lemma update_inputs_first:
  "data \<noteq> [] \<Longrightarrow> 0 < length (update_inputs s data) \<and>
     update_inputs s data ! 0 = fst (update_body currState_init data s)"
  by (simp add: update_inputs_def loop_inputs_step)

text \<open>An input of one byte gives one such array.\<close>

theorem update_inputs_constant_witness:
  "0 < length (update_inputs CCSH_new [0]) \<and>
   take 4 (update_inputs CCSH_new [0] ! 0) = [0x65787061, 0x6E642033, 0x32206279, 0x7465206B]"
proof -
  have l: "0 < length (update_inputs CCSH_new [0])"
    using update_inputs_first [of "[0]" CCSH_new] by simp
  from update_inputs_constant [OF l] l show ?thesis by simp
qed

text \<open>
  Claim C2 as stated, with words 0 to 3 the little-endian words of "expand 32-byte k",
  that is 0x61707865, 0x3320646E, 0x79622D32 and 0x6B206574, fails on the array built for
  an input of one byte.
\<close>

theorem update_inputs_not_little_endian:
  "0 < length (update_inputs CCSH_new [0]) \<and>
   take 4 (update_inputs CCSH_new [0] ! 0) \<noteq> [0x61707865, 0x3320646E, 0x79622D32, 0x6B206574] \<and>
   [0x61707865, 0x3320646E, 0x79622D32, 0x6B206574] =
     map le32_of_chars [''expa'', ''nd 3'', ''2-by'', ''te k'']"
proof -
  have l: "0 < length (update_inputs CCSH_new [0])"
    using update_inputs_first [of "[0]" CCSH_new] by simp
  have "update_inputs CCSH_new [0] ! 0 \<in> set (loop_inputs currState_init [0] CCSH_new)"
    using l by (simp add: update_inputs_def)
  from loop_inputs_fixed_words [OF length_currState_init this]
  have "take 4 (update_inputs CCSH_new [0] ! 0) = take 4 currState_init" by simp
  then show ?thesis using l by (simp add: currState_init_list sigma_words)
qed


subsection \<open>Inputs of 256 bytes\<close>

text \<open>
  Claim C1: \<open>update\<close> counts every byte of its input, so that after \<open>start(B)\<close> the
  counter is the length of B. The code does not: on 256 zero bytes the first iteration
  has 256 bytes left, \<open>std::min<uint8_t>(dataEnd - data, 32)\<close> is 0, and the counter ends
  at 224.
\<close>

theorem counter_after_256_bytes:
  "counter (start CCSH_new (replicate 256 0)) = 224 \<and>
   counter (start CCSH_new (replicate 256 0)) \<noteq> word_of_nat (length (replicate 256 (0 :: u8)))"
  by (simp add: start_def reset_is_new update_def CCSH_new_def currState_init_list zero_step)

text \<open>
  Claim C6: the payload words 4 to 11 of each array hold the bytes of its chunk. The
  code does not: on 256 bytes of value 1 the array of the first iteration has a zero
  payload, whereas the first 32 bytes of the input are the words 0x01010101.
\<close>

theorem payload_dropped_at_256_bytes:
  "take 8 (drop 4 (update_inputs CCSH_new (replicate 256 1) ! 0)) = replicate 8 0 \<and>
   words_of_bytes (take 32 (replicate 256 1)) = replicate 8 0x01010101"
proof -
  have "replicate 256 (1 :: u8) \<noteq> []" by simp
  from update_inputs_first [OF this, of CCSH_new]
  have "update_inputs CCSH_new (replicate 256 1) ! 0 =
          fst (update_body currState_init (replicate 256 1) CCSH_new)" by simp
  moreover have "words_of_bytes (replicate 32 0) = replicate 8 0"
    using words_of_bytes_zeros [of 8] by simp
  ultimately have a: "take 8 (drop 4 (update_inputs CCSH_new (replicate 256 1) ! 0)) = replicate 8 0"
    by (simp add: update_body_input currState_init_list)
  have "take 32 (replicate 256 (1 :: u8)) = replicate (4 * 8) 1" by simp
  then have b: "words_of_bytes (take 32 (replicate 256 1)) = replicate 8 0x01010101"
    by (simp only: words_of_bytes_replicate) (simp add: word_of_bytes_def)
  from a b show ?thesis by simp
qed

subsection \<open>Inputs shorter than 256 bytes\<close>

text \<open>
  Below 256 bytes the conversion to \<open>uint8_t\<close> changes nothing: the counter is the
  number of bytes absorbed, the payload holds the bytes of the chunk, and a call of
  \<open>update\<close> may be split at a multiple of 32. At any length the nonce counts the
  iterations and word 14 holds its value before the increment.
\<close>

lemma chunks_Suc: "0 < (L::nat) \<Longrightarrow> (L + 31) div 32 = Suc ((L - 32 + 31) div 32)"
proof (cases "32 \<le> L")
  case True
  then have "L + 31 = (L - 32 + 31) + 32" by simp
  then have "(L + 31) div 32 = ((L - 32 + 31) + 32) div 32" by (simp only:)
  then show ?thesis by simp
next
  case False
  assume "0 < L"
  with False have "L + 31 = 32 + (L - 1)" "L - 1 < 32" by simp_all
  then have "(L + 31) div 32 = 1" by simp
  with False show ?thesis by simp
qed

lemma update_loop_counter_short:
  "length rest < 256 \<Longrightarrow>
     counter (update_loop cs rest s) = counter s + word_of_nat (length rest)"
proof (induction cs rest s rule: update_loop.induct)
  case (1 cs rest s)
  show ?case
  proof (cases "rest = []")
    case True
    then show ?thesis by simp
  next
    case False
    let ?L = "length rest"
    have "length (drop 32 rest) < 256" using "1.prems" by simp
    from "1.IH" [OF False prod.collapse this]
    have "counter (update_loop cs rest s) =
            counter s + word_of_nat (min (?L mod 256) 32) + word_of_nat (?L - 32)"
      using False by (simp add: update_loop_step update_body_counter)
    moreover have e: "min (?L mod 256) 32 + (?L - 32) = ?L" using "1.prems" by simp
    have "(word_of_nat ?L :: u64) = word_of_nat (min (?L mod 256) 32 + (?L - 32))"
      by (simp only: e)
    then have "(word_of_nat ?L :: u64) = word_of_nat (min (?L mod 256) 32) + word_of_nat (?L - 32)"
      by (simp only: of_nat_add)
    ultimately show ?thesis by (simp only: add.assoc)
  qed
qed

lemma update_loop_nonce:
  "nonce (update_loop cs rest s) = nonce s + word_of_nat ((length rest + 31) div 32)"
proof (induction cs rest s rule: update_loop.induct)
  case (1 cs rest s)
  show ?case
  proof (cases "rest = []")
    case True
    then show ?thesis by simp
  next
    case False
    let ?L = "length rest"
    from "1.IH" [OF False prod.collapse]
    have "nonce (update_loop cs rest s) = nonce s + 1 + word_of_nat ((?L - 32 + 31) div 32)"
      using False by (simp add: update_loop_step update_body_nonce)
    moreover have "0 < ?L" using False by simp
    then have e: "(?L + 31) div 32 = Suc ((?L - 32 + 31) div 32)" by (rule chunks_Suc)
    have "(word_of_nat ((?L + 31) div 32) :: u64) = 1 + word_of_nat ((?L - 32 + 31) div 32)"
      by (simp only: e of_nat_Suc)
    ultimately show ?thesis by (simp only: add.assoc)
  qed
qed

lemma length_loop_inputs:
  "length (loop_inputs cs rest s) = (length rest + 31) div 32"
proof (induction cs rest s rule: loop_inputs.induct)
  case (1 cs rest s)
  show ?case
  proof (cases "rest = []")
    case True
    then show ?thesis by simp
  next
    case False
    let ?L = "length rest"
    have "0 < ?L" using False by simp
    then have "Suc ((?L - 32 + 31) div 32) = (?L + 31) div 32" by (simp only: chunks_Suc)
    with "1.IH" [OF False prod.collapse] False show ?thesis
      by (simp add: loop_inputs_step)
  qed
qed

lemma loop_inputs_nonce_word:
  "length cs = 16 \<Longrightarrow> i < length (loop_inputs cs rest s) \<Longrightarrow>
     loop_inputs cs rest s ! i ! 14 = ucast (nonce s + word_of_nat i)"
proof (induction cs rest s arbitrary: i rule: loop_inputs.induct)
  case (1 cs rest s)
  from "1.prems"(2) have ne: "rest \<noteq> []" by auto
  let ?p0 = "fst (update_body cs rest s)"
  have le: "min (length rest mod 256) 32 \<le> length rest"
    by (metis min.cobounded1 mod_less_eq_dividend order_trans)
  have p0: "?p0 ! 14 = ucast (nonce s)"
    using "1.prems"(1) le by (simp add: update_body_input nth_append)
  show ?case
  proof (cases i)
    case 0
    with p0 ne show ?thesis by (simp add: loop_inputs_step)
  next
    case (Suc j)
    with "1.prems"(2) ne
    have j: "j < length (loop_inputs ?p0 (drop 32 rest) (snd (update_body cs rest s)))"
      by (simp add: loop_inputs_step)
    have "length ?p0 = 16" using "1.prems"(1) by simp
    from "1.IH" [OF ne prod.collapse this j] Suc ne show ?thesis
      by (simp add: loop_inputs_step update_body_nonce ac_simps)
  qed
qed

lemma update_body_eq:
  assumes "length cs = 16" "length cs' = 16"
    "take 4 cs' = take 4 cs" "cs' ! 13 = cs ! 13" "cs' ! 15 = cs ! 15"
    "min (length r' mod 256) 32 = min (length r mod 256) 32"
    "take (min (length r mod 256) 32) r' = take (min (length r mod 256) 32) r"
  shows "update_body cs' r' s = update_body cs r s"
proof -
  have f: "fst (update_body cs' r' s) = fst (update_body cs r s)"
    using assms by (simp add: update_body_input)
  have "snd (update_body cs' r' s) = snd (update_body cs r s)"
    by (intro CCSH.equality)
      (simp_all add: update_body_counter update_body_nonce update_body_initialized
        update_body_state f assms(6))
  with f show ?thesis by (simp add: prod_eq_iff)
qed

lemma update_loop_array_eq:
  assumes "length cs = 16" "length cs' = 16"
    "take 4 cs' = take 4 cs" "cs' ! 13 = cs ! 13" "cs' ! 15 = cs ! 15"
  shows "update_loop cs' rest s = update_loop cs rest s"
proof (cases "rest = []")
  case True
  then show ?thesis by simp
next
  case False
  have "update_body cs' rest s = update_body cs rest s"
    using assms by (intro update_body_eq) simp_all
  with False show ?thesis by (simp add: update_loop_step)
qed

lemma update_loop_append_short:
  "32 dvd length B1 \<Longrightarrow> length B1 + length B2 < 256 \<Longrightarrow>
   length cs = 16 \<Longrightarrow> length cs' = 16 \<Longrightarrow>
   take 4 cs' = take 4 cs \<Longrightarrow> cs' ! 13 = cs ! 13 \<Longrightarrow> cs' ! 15 = cs ! 15 \<Longrightarrow>
     update_loop cs (B1 @ B2) s = update_loop cs' B2 (update_loop cs B1 s)"
proof (induction cs B1 s rule: update_loop.induct)
  case (1 cs B1 s)
  show ?case
  proof (cases "B1 = []")
    case True
    from update_loop_array_eq [OF "1.prems"(3-7), of B2 s] True show ?thesis by simp
  next
    case False
    let ?L = "length B1 + length B2"
    from "1.prems"(1) obtain k where k: "length B1 = 32 * k" by (rule dvdE)
    with False have "0 < k" by (cases k) simp_all
    with k have ge: "32 \<le> length B1" by simp
    have n1: "min (length B1 mod 256) 32 = 32" using ge "1.prems"(2) by simp
    have n2: "min (length (B1 @ B2) mod 256) 32 = 32" using ge "1.prems"(2) by simp
    have body: "update_body cs (B1 @ B2) s = update_body cs B1 s"
      using "1.prems"(2,3) ge by (intro update_body_eq) (simp_all add: n1)
    let ?cs1 = "fst (update_body cs B1 s)" and ?s1 = "snd (update_body cs B1 s)"
    have le: "min (length B1 mod 256) 32 \<le> length B1" using n1 ge by simp
    have cs1: "length ?cs1 = 16" "take 4 ?cs1 = take 4 cs" "?cs1 ! 13 = cs ! 13" "?cs1 ! 15 = cs ! 15"
      using "1.prems"(3) le by (simp_all add: update_body_input nth_append)
    have "length (drop 32 B1) = 32 * (k - 1)" using k by (simp add: right_diff_distrib')
    then have d: "32 dvd length (drop 32 B1)" by (simp only: dvd_triv_left)
    have l: "length (drop 32 B1) + length B2 < 256" using "1.prems"(2) by simp
    have "update_loop ?cs1 (drop 32 B1 @ B2) ?s1 = update_loop cs' B2 (update_loop ?cs1 (drop 32 B1) ?s1)"
      using "1.prems"(4-7) cs1 by (intro "1.IH" [OF False prod.collapse d l]) simp_all
    moreover have "B1 @ B2 \<noteq> []" using False by simp
    moreover have "drop 32 (B1 @ B2) = drop 32 B1 @ B2" using ge by simp
    ultimately show ?thesis
      using False by (simp add: update_loop_step [of "B1 @ B2"] update_loop_step [of B1] body)
  qed
qed

lemma update_split_short:
  assumes "32 dvd length B1" "length B1 + length B2 < 256"
  shows "update (update s B1) B2 = update s (B1 @ B2)"
  using update_loop_append_short [OF assms length_currState_init length_currState_init refl refl refl]
  by (simp add: update_def)

lemma update_body_payload_short:
  assumes "length cs = 16" "length rest < 256"
  shows "take 8 (drop 4 (fst (update_body cs rest s))) =
           words_of_bytes (take 32 rest @ replicate (32 - length rest) 0)"
proof -
  have n: "min (length rest mod 256) 32 = min (length rest) 32" using assms(2) by simp
  have t: "take (min (length rest) 32) rest = take 32 rest" by (simp add: min_def)
  have r: "32 - min (length rest) 32 = 32 - length rest" by (simp add: min_def)
  have "length (words_of_bytes (take 32 rest @ replicate (32 - length rest) 0)) = 8"
    by (simp add: min_def)
  then show ?thesis
    using assms(1) by (simp add: update_body_input n t r)
qed

lemma counter_start_short:
  "length data < 256 \<Longrightarrow> counter (start s data) = word_of_nat (length data)"
  by (simp add: start_def reset_is_new update_def update_loop_counter_short CCSH_new_def)

lemma update_inputs_nonce_words:
  assumes "i < length (update_inputs s data)"
  shows "update_inputs s data ! i ! 13 = 0 \<and> update_inputs s data ! i ! 15 = 0 \<and>
         update_inputs s data ! i ! 14 = ucast (nonce s + word_of_nat i)"
proof -
  have "update_inputs s data ! i \<in> set (loop_inputs currState_init data s)"
    using assms by (simp add: update_inputs_def)
  from loop_inputs_fixed_words [OF length_currState_init this]
  have "update_inputs s data ! i ! 13 = 0 \<and> update_inputs s data ! i ! 15 = 0"
    by (simp add: currState_init_list)
  moreover have "update_inputs s data ! i ! 14 = ucast (nonce s + word_of_nat i)"
    using assms loop_inputs_nonce_word [OF length_currState_init, of i data s]
    by (simp add: update_inputs_def)
  ultimately show ?thesis by simp
qed

lemma update_chunk_count:
  "length (update_inputs s data) = (length data + 31) div 32 \<and>
   nonce (update s data) = nonce s + word_of_nat ((length data + 31) div 32)"
  by (simp add: update_inputs_def update_def length_loop_inputs update_loop_nonce)

end
